theory Spec2Isabelle
  imports Main "HOL-Library.Word"
begin

unbundle bit_operations_syntax

section \<open>Messages\<close>

text \<open>
  A message is a Go \<^verbatim>\<open>interface{}\<close>. The dynamic types that the two source files put
  into one are \<^verbatim>\<open>float64\<close>, \<^verbatim>\<open>bool\<close>, \<^verbatim>\<open>string\<close>, the nil interface,
  \<^verbatim>\<open>[]interface{}\<close>, \<^verbatim>\<open>map[string]interface{}\<close>, an error pointer and the empty
  struct that \<^verbatim>\<open>First\<close> stores in its scratch map. A \<^verbatim>\<open>float64\<close> is kept as its
  64-bit IEEE 754 pattern.
\<close>

type_synonym float64 = "64 word"

datatype Message =
    Num float64
  | Boolean bool
  | Str string
  | Null
  | Seq "Message list"
  | Obj "(string \<times> Message) list"
  | Err string
  | Unit

type_synonym RouteID = nat
type_synonym MessageMap = "RouteID \<rightharpoonup> Message"
type_synonym Connection = nat
type_synonym Query = string

text \<open>
  A Go map read \<^verbatim>\<open>m[k]\<close> of an absent key gives the zero value, here the nil interface.
\<close>

definition at :: "MessageMap \<Rightarrow> RouteID \<Rightarrow> Message" where
  "at m k = (case m k of None \<Rightarrow> Null | Some v \<Rightarrow> v)"

section \<open>Ways of not returning\<close>

text \<open>
  A call that does not return. A run-time panic unwinds the kernel and \<^verbatim>\<open>Serve\<close>, neither
  of which recovers it; \<^verbatim>\<open>log.Fatal\<close> exits the process. \<open>Blocked\<close> is a \<^verbatim>\<open>select\<close>
  none of whose cases the environment ever enables: the goroutine stays there.
\<close>

datatype panic = TypeAssertion | IndexOutOfRange | SliceBounds | Uncomparable

datatype stop = Panic panic | Fatal string | Blocked

definition index :: "'a list \<Rightarrow> int \<Rightarrow> stop + 'a" where
  "index xs n =
     (if 0 \<le> n \<and> n < int (length xs) then Inr (xs ! nat n) else Inl (Panic IndexOutOfRange))"

definition slice :: "'a list \<Rightarrow> int \<Rightarrow> int \<Rightarrow> stop + 'a list" where
  "slice xs lo hi =
     (if 0 \<le> lo \<and> lo \<le> hi \<and> hi \<le> int (length xs)
      then Inr (take (nat (hi - lo)) (drop (nat lo) xs))
      else Inl (Panic SliceBounds))"

section \<open>Interrupts and the environment\<close>

text \<open>
  The five closures that \<^verbatim>\<open>block.go\<close> sends on the interrupt channel, named after the
  methods that build them.
\<close>

datatype Interrupt =
    RouteValue RouteID Message
  | RoutePath RouteID Query
  | Connect RouteID Connection
  | Disconnect RouteID Connection
  | Stop

text \<open>
  What the environment does at the next \<^verbatim>\<open>select\<close>: a message arrives on the input
  channel, the peer takes the message offered on a connection, the timer of \<^verbatim>\<open>Delay\<close>
  fires, or an interrupt arrives. A function that waits takes the list of the events to
  come and returns the rest; when the list is empty, or its first event is one that no
  case of the \<^verbatim>\<open>select\<close> at hand takes, the function stays blocked.
\<close>

datatype event = Arrive Message | Delivered | Timer | Interrupted Interrupt

section \<open>The kernels of library.go\<close>

text \<open>
  A kernel of \<^verbatim>\<open>library.go\<close> has five parameters: \<^verbatim>\<open>in, out, internal MessageMap, s Store,
  i chan Interrupt\<close>. It writes \<^verbatim>\<open>out\<close> and \<^verbatim>\<open>internal\<close> in place and returns an interrupt
  or nil; the model returns both maps, the interrupt and the events left. The type
  \<^verbatim>\<open>Store\<close> is declared outside the two files and no kernel here touches it.
\<close>

type_synonym 's Kernel =
  "MessageMap \<Rightarrow> MessageMap \<Rightarrow> MessageMap \<Rightarrow> 's \<Rightarrow> event list
     \<Rightarrow> stop + (MessageMap \<times> MessageMap \<times> Interrupt option \<times> event list)"

datatype Pin = Pin (Pin_Name: string)

record 'k Spec =
  Spec_Inputs :: "Pin list"
  Spec_Outputs :: "Pin list"
  Kernel :: 'k

definition First_kernel :: "'s Kernel" where
  "First_kernel inp out internal s i =
     (if internal 0 = None
      then Inr (out(0 \<mapsto> Boolean True), internal(0 \<mapsto> Unit), None, i)
      else Inr (out(0 \<mapsto> Boolean False), internal, None, i))"

definition First :: "('s Kernel) Spec" where
  "First = \<lparr>Spec_Inputs = [Pin ''in''], Spec_Outputs = [Pin ''first''], Kernel = First_kernel\<rparr>"

text \<open>
  \<^verbatim>\<open>time.ParseDuration\<close> belongs to the Go library and is a parameter: the error text or
  the duration in nanoseconds. The \<^verbatim>\<open>select\<close> of \<^verbatim>\<open>Delay\<close> waits for the timer or for
  an interrupt.
\<close>

definition Delay_kernel :: "(string \<Rightarrow> string + int) \<Rightarrow> 's Kernel" where
  "Delay_kernel ParseDuration inp out internal s i =
     (case at inp 1 of
        Str d \<Rightarrow>
          (case ParseDuration d of
             Inl err \<Rightarrow> Inr (out(0 \<mapsto> Err err), internal, None, i)
           | Inr t \<Rightarrow>
               (case i of
                  Timer # i' \<Rightarrow> Inr (out(0 \<mapsto> at inp 0), internal, None, i')
                | Interrupted f # i' \<Rightarrow> Inr (out, internal, Some f, i')
                | _ \<Rightarrow> Inl Blocked))
      | _ \<Rightarrow> Inl (Panic TypeAssertion))"

definition Delay :: "(string \<Rightarrow> string + int) \<Rightarrow> ('s Kernel) Spec" where
  "Delay ParseDuration =
     \<lparr>Spec_Inputs = [Pin ''passthrough'', Pin ''duration''], Spec_Outputs = [Pin ''passthrough''],
      Kernel = Delay_kernel ParseDuration\<rparr>"

definition Set_kernel :: "'s Kernel" where
  "Set_kernel inp out internal s i =
     (case at inp 0 of
        Str k \<Rightarrow> Inr (out(0 \<mapsto> Obj [(k, at inp 1)]), internal, None, i)
      | _ \<Rightarrow> Inl (Panic TypeAssertion))"

definition Set :: "('s Kernel) Spec" where
  "Set = \<lparr>Spec_Inputs = [Pin ''key'', Pin ''value''], Spec_Outputs = [Pin ''object''], Kernel = Set_kernel\<rparr>"

definition Latch_kernel :: "'s Kernel" where
  "Latch_kernel inp out internal s i =
     (case at inp 1 of
        Boolean controlSignal \<Rightarrow>
          (if controlSignal
           then Inr (out(0 \<mapsto> at inp 0, 1 \<mapsto> Null), internal, None, i)
           else Inr (out(1 \<mapsto> at inp 0, 0 \<mapsto> Null), internal, None, i))
      | _ \<Rightarrow> Inr (out(0 \<mapsto> Err ''Latch ctrl requires bool''), internal, None, i))"

definition Latch :: "('s Kernel) Spec" where
  "Latch = \<lparr>Spec_Inputs = [Pin ''in'', Pin ''ctrl''], Spec_Outputs = [Pin ''out'', Pin ''out''],
            Kernel = Latch_kernel\<rparr>"

definition Gate_kernel :: "'s Kernel" where
  "Gate_kernel inp out internal s i = Inr (out(0 \<mapsto> at inp 0), internal, None, i)"

definition Gate :: "('s Kernel) Spec" where
  "Gate = \<lparr>Spec_Inputs = [Pin ''in'', Pin ''ctrl''], Spec_Outputs = [Pin ''out''], Kernel = Gate_kernel\<rparr>"

definition Identity_kernel :: "'s Kernel" where
  "Identity_kernel inp out internal s i = Inr (out(0 \<mapsto> at inp 0), internal, None, i)"

definition Identity :: "('s Kernel) Spec" where
  "Identity = \<lparr>Spec_Inputs = [Pin ''in''], Spec_Outputs = [Pin ''out''], Kernel = Identity_kernel\<rparr>"

definition Sink_kernel :: "'s Kernel" where
  "Sink_kernel inp out internal s i = Inr (out, internal, None, i)"

definition Sink :: "('s Kernel) Spec" where
  "Sink = \<lparr>Spec_Inputs = [Pin ''in''], Spec_Outputs = [], Kernel = Sink_kernel\<rparr>"

definition Head_kernel :: "'s Kernel" where
  "Head_kernel inp out internal s i =
     (case at inp 0 of
        Seq arr \<Rightarrow>
          (case index arr 0 of
             Inl e \<Rightarrow> Inl e
           | Inr x \<Rightarrow>
               (case slice arr 1 (int (length arr)) of
                  Inl e \<Rightarrow> Inl e
                | Inr rest \<Rightarrow> Inr (out(0 \<mapsto> x, 1 \<mapsto> Seq rest), internal, None, i)))
      | _ \<Rightarrow> Inr (out(0 \<mapsto> Err ''head requires an array''), internal, None, i))"

definition Head :: "('s Kernel) Spec" where
  "Head = \<lparr>Spec_Inputs = [Pin ''in''], Spec_Outputs = [Pin ''head'', Pin ''tail''], Kernel = Head_kernel\<rparr>"

definition Tail_kernel :: "'s Kernel" where
  "Tail_kernel inp out internal s i =
     (case at inp 0 of
        Seq arr \<Rightarrow>
          (case index arr (int (length arr)) of
             Inl e \<Rightarrow> Inl e
           | Inr x \<Rightarrow>
               (case slice arr 0 (int (length arr) - 1) of
                  Inl e \<Rightarrow> Inl e
                | Inr front \<Rightarrow> Inr (out(0 \<mapsto> x, 1 \<mapsto> Seq front), internal, None, i)))
      | _ \<Rightarrow> Inr (out(0 \<mapsto> Err ''tail requires an array''), internal, None, i))"

definition Tail :: "('s Kernel) Spec" where
  "Tail = \<lparr>Spec_Inputs = [Pin ''in''], Spec_Outputs = [Pin ''tail'', Pin ''head''], Kernel = Tail_kernel\<rparr>"

definition Append_kernel :: "'s Kernel" where
  "Append_kernel inp out internal s i =
     (case at inp 1 of
        Seq arr \<Rightarrow> Inr (out(0 \<mapsto> Seq (arr @ [at inp 0])), internal, None, i)
      | _ \<Rightarrow> Inr (out(0 \<mapsto> Err ''Append requires an array''), internal, None, i))"

definition Append :: "('s Kernel) Spec" where
  "Append = \<lparr>Spec_Inputs = [Pin ''element'', Pin ''array''], Spec_Outputs = [Pin ''array''],
             Kernel = Append_kernel\<rparr>"

text \<open>
  The sum of two \<^verbatim>\<open>float64\<close> is the parameter \<open>fadd\<close>; the other arithmetic and
  ordering kernels of the file repeat the two checks of this one with another operator.
\<close>

definition Addition_kernel :: "(float64 \<Rightarrow> float64 \<Rightarrow> float64) \<Rightarrow> 's Kernel" where
  "Addition_kernel fadd inp out internal s i =
     (case at inp 0 of
        Num a1 \<Rightarrow>
          (case at inp 1 of
             Num a2 \<Rightarrow> Inr (out(0 \<mapsto> Num (fadd a1 a2)), internal, None, i)
           | _ \<Rightarrow> Inr (out(0 \<mapsto> Err ''Addition requires floats''), internal, None, i))
      | _ \<Rightarrow> Inr (out(0 \<mapsto> Err ''Addition requires floats''), internal, None, i))"

definition Addition :: "(float64 \<Rightarrow> float64 \<Rightarrow> float64) \<Rightarrow> ('s Kernel) Spec" where
  "Addition fadd = \<lparr>Spec_Inputs = [Pin ''addend'', Pin ''addend''], Spec_Outputs = [Pin ''sum''],
                    Kernel = Addition_kernel fadd\<rparr>"

text \<open>
  Go's \<^verbatim>\<open>==\<close> on two interface values: different dynamic types are unequal; equal
  dynamic types are compared by value when the type is comparable and panic when it is
  a slice or a map. Two \<^verbatim>\<open>float64\<close> follow IEEE 754 (a NaN equals nothing, the two
  zeros are equal). Two error pointers are equal when they are the same allocation, which
  a message of the model does not record: it is the parameter \<open>same_pointer\<close>.
\<close>

definition is_NaN :: "float64 \<Rightarrow> bool" where
  "is_NaN w = (w AND 0x7FF0000000000000 = 0x7FF0000000000000 \<and> w AND 0x000FFFFFFFFFFFFF \<noteq> 0)"

definition float_eq :: "float64 \<Rightarrow> float64 \<Rightarrow> bool" where
  "float_eq a b =
     (\<not> is_NaN a \<and> \<not> is_NaN b \<and>
      (a = b \<or> (a AND 0x7FFFFFFFFFFFFFFF = 0 \<and> b AND 0x7FFFFFFFFFFFFFFF = 0)))"

fun iface_eq :: "bool \<Rightarrow> Message \<Rightarrow> Message \<Rightarrow> stop + bool" where
  "iface_eq same_pointer (Num a) (Num b) = Inr (float_eq a b)"
| "iface_eq same_pointer (Boolean a) (Boolean b) = Inr (a = b)"
| "iface_eq same_pointer (Str a) (Str b) = Inr (a = b)"
| "iface_eq same_pointer Null Null = Inr True"
| "iface_eq same_pointer Unit Unit = Inr True"
| "iface_eq same_pointer (Err a) (Err b) = Inr same_pointer"
| "iface_eq same_pointer (Seq a) (Seq b) = Inl (Panic Uncomparable)"
| "iface_eq same_pointer (Obj a) (Obj b) = Inl (Panic Uncomparable)"
| "iface_eq same_pointer a b = Inr False"

definition EqualTo_kernel :: "bool \<Rightarrow> 's Kernel" where
  "EqualTo_kernel same_pointer inp out internal s i =
     (case iface_eq same_pointer (at inp 0) (at inp 1) of
        Inl e \<Rightarrow> Inl e
      | Inr r \<Rightarrow> Inr (out(0 \<mapsto> Boolean r), internal, None, i))"

definition EqualTo :: "bool \<Rightarrow> ('s Kernel) Spec" where
  "EqualTo same_pointer = \<lparr>Spec_Inputs = [Pin ''value'', Pin ''value''], Spec_Outputs = [Pin ''IsEqualTo''],
                           Kernel = EqualTo_kernel same_pointer\<rparr>"

definition NotEqualTo_kernel :: "bool \<Rightarrow> 's Kernel" where
  "NotEqualTo_kernel same_pointer inp out internal s i =
     (case iface_eq same_pointer (at inp 0) (at inp 1) of
        Inl e \<Rightarrow> Inl e
      | Inr r \<Rightarrow> Inr (out(0 \<mapsto> Boolean (\<not> r)), internal, None, i))"

definition NotEqualTo :: "bool \<Rightarrow> ('s Kernel) Spec" where
  "NotEqualTo same_pointer =
     \<lparr>Spec_Inputs = [Pin ''value'', Pin ''value''], Spec_Outputs = [Pin ''IsNotEqualTo''],
      Kernel = NotEqualTo_kernel same_pointer\<rparr>"

section \<open>The block of block.go\<close>

text \<open>
  The types \<^verbatim>\<open>Route\<close>, \<^verbatim>\<open>Output\<close>, \<^verbatim>\<open>BlockState\<close>, \<^verbatim>\<open>BlockRouting\<close> and \<^verbatim>\<open>Block\<close> are declared
  outside the two files; their fields are those that \<^verbatim>\<open>NewBlock\<close> fills in and the
  methods read. A \<^verbatim>\<open>fetch.Query\<close> is kept as the text it was parsed from. The channel
  \<^verbatim>\<open>C\<close> of a route and the interrupt channel have no field: what arrives on them is the
  list of events. A connection is the sending end of another block's input channel, an
  opaque handle.

  \<^verbatim>\<open>Connections\<close> is a Go map used as a set, and \<^verbatim>\<open>range\<close> visits its keys once each in
  an order the language leaves open: the list has no duplicate and its order is the
  order of the visit. The manifest is a Go map used as a set of pairs of an output's
  name and a connection.
\<close>

record Route =
  Route_Name :: string
  Path :: Query
  Value :: "Message option"

record Output =
  Output_Name :: string
  Connections :: "Connection list"

type_synonym ManifestPair = "string \<times> Connection"
type_synonym Manifest = "ManifestPair set"

record BlockState =
  inputValues :: MessageMap
  outputValues :: MessageMap
  manifest :: Manifest
  Processed :: bool

record BlockRouting =
  Inputs :: "Route list"
  Outputs :: "Output list"

text \<open>
  \<^verbatim>\<open>Serve\<close> calls the kernel with three arguments,
  \<^verbatim>\<open>b.kernel(b.state.inputValues, b.state.outputValues, b.routing.InterruptChan)\<close>,
  so the kernel a block holds has this type and not the five-parameter type of
  \<^verbatim>\<open>library.go\<close>. No kernel of the files writes its input map; the model gives it
  back unchanged.
\<close>

type_synonym BlockKernel =
  "MessageMap \<Rightarrow> MessageMap \<Rightarrow> event list \<Rightarrow> stop + (MessageMap \<times> Interrupt option \<times> event list)"

record Block =
  state :: BlockState
  routing :: BlockRouting
  kernel :: BlockKernel

definition NewBlock :: "BlockKernel Spec \<Rightarrow> Block" where
  "NewBlock s =
     \<lparr>state = \<lparr>inputValues = Map.empty, outputValues = Map.empty, manifest = {},
               Processed = False\<rparr>,
      routing =
        \<lparr>Inputs = map (\<lambda>v. \<lparr>Route_Name = Pin_Name v, Path = ''.'', Value = None\<rparr>) (Spec_Inputs s),
         Outputs = map (\<lambda>v. \<lparr>Output_Name = Pin_Name v, Connections = []\<rparr>) (Spec_Outputs s)\<rparr>,
      kernel = Kernel s\<rparr>"

subsection \<open>The interrupts\<close>

text \<open>
  Running a closure under the write lock: it changes the routing and returns whether the
  block goes on. An index outside the slice panics.
\<close>

fun interrupt :: "Interrupt \<Rightarrow> BlockRouting \<Rightarrow> stop + (BlockRouting \<times> bool)" where
  "interrupt (RouteValue rid v) r =
     (if rid < length (Inputs r)
      then Inr (r\<lparr>Inputs := (Inputs r)[rid := (Inputs r ! rid)\<lparr>Value := Some v\<rparr>]\<rparr>, True)
      else Inl (Panic IndexOutOfRange))"
| "interrupt (RoutePath rid p) r =
     (if rid < length (Inputs r)
      then Inr (r\<lparr>Inputs := (Inputs r)[rid := (Inputs r ! rid)\<lparr>Path := p, Value := None\<rparr>]\<rparr>, True)
      else Inl (Panic IndexOutOfRange))"
| "interrupt (Connect rid c) r =
     (if rid < length (Outputs r)
      then Inr (r\<lparr>Outputs := (Outputs r)[rid := (Outputs r ! rid)
                   \<lparr>Connections := (if c \<in> set (Connections (Outputs r ! rid))
                                    then Connections (Outputs r ! rid)
                                    else Connections (Outputs r ! rid) @ [c])\<rparr>]\<rparr>, True)
      else Inl (Panic IndexOutOfRange))"
| "interrupt (Disconnect rid c) r =
     (if rid < length (Outputs r)
      then Inr (r\<lparr>Outputs := (Outputs r)[rid := (Outputs r ! rid)
                   \<lparr>Connections := removeAll c (Connections (Outputs r ! rid))\<rparr>]\<rparr>, True)
      else Inl (Panic IndexOutOfRange))"
| "interrupt Stop r = Inr (r, False)"

subsection \<open>receive\<close>

text \<open>
  \<^verbatim>\<open>fetch.Run\<close> belongs to the library \<^verbatim>\<open>go-fetch\<close> and is a parameter; like the Go
  function it returns a value and an error, \<open>None\<close> for a nil error. The loop of
  \<^verbatim>\<open>receive\<close> runs over the inputs with their indices and over the input map.
\<close>

type_synonym Run = "Query \<Rightarrow> Message \<Rightarrow> Message \<times> string option"

fun receive_inputs ::
  "Run \<Rightarrow> (RouteID \<times> Route) list \<Rightarrow> MessageMap \<Rightarrow> event list
     \<Rightarrow> stop + (MessageMap \<times> Interrupt option \<times> event list)" where
  "receive_inputs run [] iv evs = Inr (iv, None, evs)"
| "receive_inputs run ((rid, input) # rest) iv evs =
     (if iv rid \<noteq> None then receive_inputs run rest iv evs
      else case Value input of
        Some v \<Rightarrow> receive_inputs run rest (iv(rid \<mapsto> v)) evs
      | None \<Rightarrow>
          (case evs of
             Arrive m # evs' \<Rightarrow>
               (case run (Path input) m of
                  (v, Some err) \<Rightarrow> Inl (Fatal err)
                | (v, None) \<Rightarrow> receive_inputs run rest (iv(rid \<mapsto> v)) evs')
           | Interrupted f # evs' \<Rightarrow> Inr (iv, Some f, evs')
           | _ \<Rightarrow> Inl Blocked))"

text \<open>
  What a block does that can be seen from outside, in order: a message sent on a
  connection of an output, a return of the kernel with the interrupt it returned, and a
  crank, with the outputs as they were wired then.
\<close>

datatype action =
    Sent RouteID Connection Message
  | Ran "Interrupt option"
  | Cranked "Output list"

type_synonym 'a outcome = "action list \<times> (stop + ('a \<times> Interrupt option \<times> event list))"

definition receive :: "Run \<Rightarrow> Block \<Rightarrow> event list \<Rightarrow> Block outcome" where
  "receive run b evs =
     (case receive_inputs run (enumerate 0 (Inputs (routing b))) (inputValues (state b)) evs of
        Inl e \<Rightarrow> ([], Inl e)
      | Inr (iv, f, evs') \<Rightarrow> ([], Inr (b\<lparr>state := (state b)\<lparr>inputValues := iv\<rparr>\<rparr>, f, evs')))"

subsection \<open>broadcast\<close>

definition emit :: "action \<Rightarrow> 'a outcome \<Rightarrow> 'a outcome" where
  "emit a r = (a # fst r, snd r)"

fun broadcast_connections ::
  "RouteID \<Rightarrow> string \<Rightarrow> Message \<Rightarrow> Connection list \<Rightarrow> Manifest \<Rightarrow> event list
     \<Rightarrow> Manifest outcome" where
  "broadcast_connections rid name v [] man evs = ([], Inr (man, None, evs))"
| "broadcast_connections rid name v (c # cs) man evs =
     (if (name, c) \<in> man then broadcast_connections rid name v cs man evs
      else case evs of
        Delivered # evs' \<Rightarrow>
          emit (Sent rid c v) (broadcast_connections rid name v cs (insert (name, c) man) evs')
      | Interrupted f # evs' \<Rightarrow> ([], Inr (man, Some f, evs'))
      | _ \<Rightarrow> ([], Inl Blocked))"

text \<open>
  Sequencing as the loops and \<^verbatim>\<open>Serve\<close> do it: what follows runs only when the step
  before returned nil.
\<close>

definition and_then :: "'a outcome \<Rightarrow> ('a \<Rightarrow> event list \<Rightarrow> 'a outcome) \<Rightarrow> 'a outcome" where
  "and_then r k =
     (case r of
        (tr, Inr (x, None, evs)) \<Rightarrow> (tr @ fst (k x evs), snd (k x evs))
      | _ \<Rightarrow> r)"

fun broadcast_outputs ::
  "(RouteID \<times> Output) list \<Rightarrow> MessageMap \<Rightarrow> Manifest \<Rightarrow> event list \<Rightarrow> Manifest outcome" where
  "broadcast_outputs [] ov man evs = ([], Inr (man, None, evs))"
| "broadcast_outputs ((rid, out) # rest) ov man evs =
     (if Connections out = []
      then (case evs of
              Interrupted f # evs' \<Rightarrow> ([], Inr (man, Some f, evs'))
            | _ \<Rightarrow> ([], Inl Blocked))
      else and_then
             (broadcast_connections rid (Output_Name out) (at ov rid) (Connections out) man evs)
             (\<lambda>man' evs'. broadcast_outputs rest ov man' evs'))"

definition broadcast :: "Block \<Rightarrow> event list \<Rightarrow> Block outcome" where
  "broadcast b evs =
     (case broadcast_outputs (enumerate 0 (Outputs (routing b))) (outputValues (state b))
             (manifest (state b)) evs of
        (tr, Inl e) \<Rightarrow> (tr, Inl e)
      | (tr, Inr (man, f, evs')) \<Rightarrow> (tr, Inr (b\<lparr>state := (state b)\<lparr>manifest := man\<rparr>\<rparr>, f, evs')))"

subsection \<open>crank and Serve\<close>

definition crank :: "Block \<Rightarrow> Block" where
  "crank b =
     b\<lparr>state := (state b)\<lparr>inputValues := Map.empty, outputValues := Map.empty, manifest := {},
                          Processed := False\<rparr>\<rparr>"

text \<open>
  Lines 57 to 63 of \<^verbatim>\<open>block.go\<close>: the kernel is called when \<^verbatim>\<open>Processed\<close> is false; an
  interrupt it returns leaves the loop before \<^verbatim>\<open>Processed\<close> is set.
\<close>

definition compute :: "Block \<Rightarrow> event list \<Rightarrow> Block outcome" where
  "compute b evs =
     (if Processed (state b) = False
      then (case kernel b (inputValues (state b)) (outputValues (state b)) evs of
              Inl e \<Rightarrow> ([], Inl e)
            | Inr (ov, Some f, evs') \<Rightarrow>
                ([Ran (Some f)], Inr (b\<lparr>state := (state b)\<lparr>outputValues := ov\<rparr>\<rparr>, Some f, evs'))
            | Inr (ov, None, evs') \<Rightarrow>
                ([Ran None],
                 Inr (b\<lparr>state := (state b)\<lparr>outputValues := ov, Processed := True\<rparr>\<rparr>, None, evs')))
      else ([], Inr (b\<lparr>state := (state b)\<lparr>Processed := True\<rparr>\<rparr>, None, evs)))"

text \<open>One turn of the inner loop of \<^verbatim>\<open>Serve\<close>.\<close>

definition iteration :: "Run \<Rightarrow> Block \<Rightarrow> event list \<Rightarrow> Block outcome" where
  "iteration run b evs =
     and_then (and_then (and_then (receive run b evs) compute) broadcast)
       (\<lambda>b evs. ([Cranked (Outputs (routing b))], Inr (crank b, None, evs)))"

text \<open>
  \<^verbatim>\<open>Serve\<close> loops until an interrupt returns false. The fuel counts the turns of the inner
  loop; \<open>Running\<close> is the loop still going when the fuel is spent.
\<close>

datatype exit = Returned | Halted stop | Running

fun Serve :: "nat \<Rightarrow> Run \<Rightarrow> Block \<Rightarrow> event list \<Rightarrow> action list \<times> exit" where
  "Serve 0 run b evs = ([], Running)"
| "Serve (Suc n) run b evs =
     (case iteration run b evs of
        (tr, Inl e) \<Rightarrow> (tr, Halted e)
      | (tr, Inr (b', None, evs')) \<Rightarrow>
          (tr @ fst (Serve n run b' evs'), snd (Serve n run b' evs'))
      | (tr, Inr (b', Some f, evs')) \<Rightarrow>
          (case interrupt f (routing b') of
             Inl e \<Rightarrow> (tr, Halted e)
           | Inr (r, ok) \<Rightarrow>
               if \<not> ok then (tr, Returned)
               else (tr @ fst (Serve n run (b'\<lparr>routing := r\<rparr>) evs'),
                     snd (Serve n run (b'\<lparr>routing := r\<rparr>) evs'))))"

section \<open>Cycles\<close>

text \<open>The state of a block between two cycles.\<close>

definition clean :: "BlockState \<Rightarrow> bool" where
  "clean st =
     (inputValues st = Map.empty \<and> outputValues st = Map.empty \<and> manifest st = {} \<and>
      Processed st = False)"

text \<open>
  A cycle is the stretch of a block's actions up to a crank. \<open>kernel_once p\<close> reads a
  sequence of actions, \<open>p\<close> telling whether the kernel has already returned nil in the
  current cycle: the kernel does not return again once it has returned nil, messages are
  sent and the crank happens only after it has, and a return with an interrupt leaves
  the cycle waiting for the kernel.
\<close>

fun kernel_once :: "bool \<Rightarrow> action list \<Rightarrow> bool" where
  "kernel_once p [] = True"
| "kernel_once p (Ran None # tr) = (\<not> p \<and> kernel_once True tr)"
| "kernel_once p (Ran (Some f) # tr) = (\<not> p \<and> kernel_once False tr)"
| "kernel_once p (Sent rid c m # tr) = (p \<and> kernel_once p tr)"
| "kernel_once p (Cranked outs # tr) = (p \<and> kernel_once False tr)"

text \<open>
  \<open>once_per_cycle S\<close> reads a sequence of actions, \<open>S\<close> holding the pairs of an output
  index and a connection that were sent a message in the current cycle: no pair is sent
  a second message before the crank, and at the crank every connection of every output
  has been sent one.
\<close>

definition all_served :: "Output list \<Rightarrow> (RouteID \<times> Connection) set \<Rightarrow> bool" where
  "all_served outs S =
     list_all (\<lambda>(rid, out). list_all (\<lambda>c. (rid, c) \<in> S) (Connections out)) (enumerate 0 outs)"

fun once_per_cycle :: "(RouteID \<times> Connection) set \<Rightarrow> action list \<Rightarrow> bool" where
  "once_per_cycle S [] = True"
| "once_per_cycle S (Sent rid c m # tr) = ((rid, c) \<notin> S \<and> once_per_cycle (insert (rid, c) S) tr)"
| "once_per_cycle S (Ran f # tr) = once_per_cycle S tr"
| "once_per_cycle S (Cranked outs # tr) = (all_served outs S \<and> once_per_cycle {} tr)"

text \<open>
  The manifest holds names of outputs where \<open>once_per_cycle\<close> holds their indices.
  \<open>recorded names man S\<close>: the manifest is \<open>S\<close> with every index replaced by the name of
  that output. \<open>wired b S\<close>: the names of the outputs of \<open>b\<close> are pairwise distinct and its
  manifest is \<open>S\<close> so renamed.
\<close>

definition recorded :: "string list \<Rightarrow> Manifest \<Rightarrow> (RouteID \<times> Connection) set \<Rightarrow> bool" where
  "recorded names man S =
     (man = (\<lambda>(rid, c). (names ! rid, c)) ` S \<and> (\<forall>(rid, c) \<in> S. rid < length names))"

definition wired :: "Block \<Rightarrow> (RouteID \<times> Connection) set \<Rightarrow> bool" where
  "wired b S =
     (distinct (map Output_Name (Outputs (routing b))) \<and>
      recorded (map Output_Name (Outputs (routing b))) (manifest (state b)) S)"

section \<open>Blocks for the examples\<close>

text \<open>
  \<^verbatim>\<open>block.go\<close> and \<^verbatim>\<open>library.go\<close> disagree on the parameters of a kernel, and no file
  says how a kernel of the second becomes the kernel of a block. The examples take
  kernels that read neither their scratch map nor their store, and drop these two
  parameters: \<open>as_BlockKernel\<close> gives them fixed values, which for such a kernel are of
  no consequence (lemmas \<open>Identity_ignores_scratch\<close>, \<open>Latch_ignores_scratch\<close>,
  \<open>Head_ignores_scratch\<close>, \<open>Delay_ignores_scratch\<close>). No example puts \<^verbatim>\<open>First\<close>, which
  does read its scratch map, into a block.
\<close>

definition as_BlockKernel :: "MessageMap \<Rightarrow> 's \<Rightarrow> 's Kernel \<Rightarrow> BlockKernel" where
  "as_BlockKernel internal s k inp out i =
     (case k inp out internal s i of
        Inl e \<Rightarrow> Inl e
      | Inr (out', internal', f, i') \<Rightarrow> Inr (out', f, i'))"

definition block_of :: "(unit Kernel) Spec \<Rightarrow> Block" where
  "block_of sp =
     NewBlock \<lparr>Spec_Inputs = Spec_Inputs sp, Spec_Outputs = Spec_Outputs sp,
               Kernel = as_BlockKernel Map.empty () (Kernel sp)\<rparr>"

text \<open>
  A block after the interrupts of \<^verbatim>\<open>Connect\<close> for the given outputs and connections, and
  a block in the middle of a cycle, holding the given input values.
\<close>

definition connected :: "Block \<Rightarrow> (RouteID \<times> Connection) list \<Rightarrow> Block" where
  "connected b cs =
     fold (\<lambda>(rid, c) b. case interrupt (Connect rid c) (routing b) of
                           Inl e \<Rightarrow> b
                         | Inr (r, ok) \<Rightarrow> b\<lparr>routing := r\<rparr>) cs b"

definition holding :: "Block \<Rightarrow> MessageMap \<Rightarrow> Block" where
  "holding b iv = b\<lparr>state := (state b)\<lparr>inputValues := iv\<rparr>\<rparr>"

text \<open>
  Two behaviours of \<^verbatim>\<open>fetch.Run\<close>: the query resolves to the whole message, as the
  query \<^verbatim>\<open>.\<close> of a new route does, and the query does not resolve.
\<close>

definition whole_message :: Run where
  "whole_message p m = (m, None)"

definition no_such_key :: Run where
  "no_such_key p m = (Null, Some ''no such key'')"

definition every_duration :: "string \<Rightarrow> string + int" where
  "every_duration d = Inr 1000000"

subsection \<open>Predicates on what a kernel returns\<close>

text \<open>
  The kernels that test a dynamic type with the two-valued form of the assertion put an
  error on output 0 and return nil when the test fails.
\<close>

definition is_Err :: "Message \<Rightarrow> bool" where
  "is_Err m = (case m of Err t \<Rightarrow> True | _ \<Rightarrow> False)"

definition error_on_output0 ::
  "stop + (MessageMap \<times> MessageMap \<times> Interrupt option \<times> event list) \<Rightarrow> bool" where
  "error_on_output0 r =
     (case r of Inl e \<Rightarrow> False | Inr (out, internal, f, i) \<Rightarrow> is_Err (at out 0) \<and> f = None)"

section \<open>The kernels: what they return\<close>

lemma index_at_length: "index xs (int (length xs)) = Inl (Panic IndexOutOfRange)"
  by (simp add: index_def)

lemma Latch_mismatch:
  "(\<forall>c. at inp 1 \<noteq> Boolean c) \<Longrightarrow> error_on_output0 (Latch_kernel inp out internal s i)"
  by (cases "at inp 1") (simp_all add: Latch_kernel_def error_on_output0_def is_Err_def at_def)

lemma Append_mismatch:
  "(\<forall>arr. at inp 1 \<noteq> Seq arr) \<Longrightarrow> error_on_output0 (Append_kernel inp out internal s i)"
  by (cases "at inp 1") (simp_all add: Append_kernel_def error_on_output0_def is_Err_def at_def)

lemma Tail_mismatch:
  "(\<forall>arr. at inp 0 \<noteq> Seq arr) \<Longrightarrow> error_on_output0 (Tail_kernel inp out internal s i)"
  by (cases "at inp 0") (simp_all add: Tail_kernel_def error_on_output0_def is_Err_def at_def)

lemma Addition_mismatch:
  "(\<forall>a. at inp 0 \<noteq> Num a) \<or> (\<forall>a. at inp 1 \<noteq> Num a) \<Longrightarrow>
     error_on_output0 (Addition_kernel fadd inp out internal s i)"
  by (cases "at inp 0"; cases "at inp 1")
     (simp_all add: Addition_kernel_def error_on_output0_def is_Err_def at_def)

text \<open>
  Claim C2. Every built-in kernel whose input fails its variant check puts an error on
  output 0 and returns no interrupt, and no kernel crashes the runtime; set with a key
  that is no string and delay with a duration that is no string are among the examples.
  \<^verbatim>\<open>Set\<close> and \<^verbatim>\<open>Delay\<close> use the one-valued assertion \<^verbatim>\<open>.(string)\<close>, which panics: with
  the number 1.0 as key, and with the number 1.0 as duration, the kernel does not
  return.
\<close>

theorem Set_and_Delay_panic_on_non_string:
  "Set_kernel [0 \<mapsto> Num 0x3FF0000000000000, 1 \<mapsto> Str ''v''] Map.empty Map.empty () [] = Inl (Panic TypeAssertion) \<and>
   Delay_kernel ParseDuration [0 \<mapsto> Str ''v'', 1 \<mapsto> Num 0x3FF0000000000000] Map.empty Map.empty () [Timer] =
     Inl (Panic TypeAssertion)"
  by (simp add: Set_kernel_def Delay_kernel_def at_def)

text \<open>
  Claim C5. For every non-empty array the tail kernel emits the last element on its
  first output and the array without it on its second. The kernel reads
  \<^verbatim>\<open>arr[len(arr)]\<close>, one past the last element: for every array, empty or not, the read
  is out of range and the kernel panics.
\<close>

theorem Tail_kernel_index_out_of_range:
  "Tail_kernel (inp(0 \<mapsto> Seq arr)) out internal s i = Inl (Panic IndexOutOfRange)"
  by (simp add: Tail_kernel_def at_def index_at_length)

text \<open>
  Claim C8. For every array \<open>A\<close> with at least one element and every element \<open>e\<close>, the
  output of append on \<open>e\<close> and \<open>A\<close>, fed to head, gives \<open>A[0]\<close> on the first output and
  \<open>A[1:]\<close> followed by \<open>e\<close> on the second.
\<close>

theorem append_then_head:
  assumes "at inp 0 = e" and "at inp 1 = Seq A" and "1 \<le> length A"
  shows "\<exists>out1 internal1.
           Append_kernel inp out internal s i = Inr (out1, internal1, None, i) \<and>
           Head_kernel [0 \<mapsto> at out1 0] out' internal' s' i' =
             Inr (out'(0 \<mapsto> A ! 0, 1 \<mapsto> Seq (drop 1 A @ [e])), internal', None, i')"
proof -
  from assms(3) obtain a as where A: "A = a # as" by (cases A) auto
  have 1: "Append_kernel inp out internal s i = Inr (out(0 \<mapsto> Seq (A @ [e])), internal, None, i)"
    using assms(1,2) by (simp add: Append_kernel_def)
  have 2: "Head_kernel [0 \<mapsto> at (out(0 \<mapsto> Seq (A @ [e]))) 0] out' internal' s' i' =
             Inr (out'(0 \<mapsto> A ! 0, 1 \<mapsto> Seq (drop 1 A @ [e])), internal', None, i')"
    by (simp add: A Head_kernel_def at_def index_def slice_def)
  from 1 2 show ?thesis by blast
qed

theorem append_then_head_witness:
  "\<exists>out1 internal1.
     Append_kernel [0 \<mapsto> Str ''c'', 1 \<mapsto> Seq [Str ''a'', Str ''b'']] Map.empty Map.empty () [] =
       Inr (out1, internal1, None, []) \<and>
     Head_kernel [0 \<mapsto> at out1 0] Map.empty Map.empty () [] =
       Inr ([0 \<mapsto> Str ''a'', 1 \<mapsto> Seq [Str ''b'', Str ''c'']], Map.empty, None, [])"
  using append_then_head [of "[0 \<mapsto> Str ''c'', 1 \<mapsto> Seq [Str ''a'', Str ''b'']]" "Str ''c''" "[Str ''a'', Str ''b'']"
      Map.empty Map.empty "()" "[]" Map.empty Map.empty "()" "[]"]
  by (simp add: at_def)

text \<open>
  Claim C9. For every two messages of any variant, sequences and mappings included, the
  kernel of \<^verbatim>\<open>==\<close> outputs whether they are structurally equal and the kernel of
  \<^verbatim>\<open>!=\<close> the negation, without crashing. The kernels apply Go's \<^verbatim>\<open>==\<close> to the two
  interface values, which panics when both hold a slice (or both a map): on two empty
  arrays neither kernel returns.
\<close>

theorem EqualTo_panics_on_two_arrays:
  "EqualTo_kernel False [0 \<mapsto> Seq [], 1 \<mapsto> Seq []] Map.empty Map.empty () [] =
     Inl (Panic Uncomparable) \<and>
   NotEqualTo_kernel False [0 \<mapsto> Seq [], 1 \<mapsto> Seq []] Map.empty Map.empty () [] =
     Inl (Panic Uncomparable)"
  by (simp add: EqualTo_kernel_def NotEqualTo_kernel_def at_def)

text \<open>
  Claim C10. The reads of the head kernel are in bounds only when the array is not
  empty: the kernel answers a message that is no array with an error on output 0, but it
  lets the empty array through, and there the read of element 0 is out of range and is
  a panic, not an error output. On an array with a first element it returns that element
  and the rest.
\<close>

theorem Head_kernel_in_bounds_iff_nonempty:
  "Head_kernel inp out internal s i =
     (case at inp 0 of
        Seq [] \<Rightarrow> Inl (Panic IndexOutOfRange)
      | Seq (x # xs) \<Rightarrow> Inr (out(0 \<mapsto> x, 1 \<mapsto> Seq xs), internal, None, i)
      | _ \<Rightarrow> Inr (out(0 \<mapsto> Err ''head requires an array''), internal, None, i)) \<and>
   ((\<exists>e. Head_kernel inp out internal s i = Inl e) = (at inp 0 = Seq []))"
  by (simp add: Head_kernel_def index_def slice_def split: Message.splits list.splits)

section \<open>The engine: one turn of the loop\<close>

lemmas engine_defs = iteration_def and_then_def receive_def compute_def broadcast_def crank_def
  block_of_def NewBlock_def as_BlockKernel_def whole_message_def no_such_key_def every_duration_def emit_def at_def

text \<open>
  The kernels that the examples put into a block behave the same whatever scratch map
  and store they are given.
\<close>

lemma Identity_ignores_scratch:
  "as_BlockKernel internal s Identity_kernel = as_BlockKernel internal' s' Identity_kernel"
  by (simp add: as_BlockKernel_def Identity_kernel_def fun_eq_iff)

lemma Latch_ignores_scratch:
  "as_BlockKernel internal s Latch_kernel = as_BlockKernel internal' s' Latch_kernel"
  by (simp add: as_BlockKernel_def Latch_kernel_def fun_eq_iff split: Message.splits)

lemma Head_ignores_scratch:
  "as_BlockKernel internal s Head_kernel = as_BlockKernel internal' s' Head_kernel"
  by (simp add: as_BlockKernel_def Head_kernel_def fun_eq_iff split: Message.splits sum.splits)

lemma Delay_ignores_scratch:
  "as_BlockKernel internal s (Delay_kernel pd) = as_BlockKernel internal' s' (Delay_kernel pd)"
  by (simp add: as_BlockKernel_def Delay_kernel_def fun_eq_iff
      split: Message.splits sum.splits list.splits event.splits)

lemma and_then_cases:
  assumes "and_then r k = (tr, res)"
  obtains (halt) e where "r = (tr, Inl e)" and "res = Inl e"
    | (break) x f evs where "r = (tr, Inr (x, Some f, evs))" and "res = Inr (x, Some f, evs)"
    | (continue) tr1 x evs1 tr2 where "r = (tr1, Inr (x, None, evs1))"
        and "k x evs1 = (tr2, res)" and "tr = tr1 @ tr2"
proof (cases r)
  case (Pair tr0 r0)
  show ?thesis
  proof (cases r0)
    case (Inl e)
    with Pair assms halt show ?thesis by (auto simp: and_then_def)
  next
    case (Inr y)
    obtain x f evs where y: "y = (x, f, evs)" by (cases y)
    show ?thesis
    proof (cases f)
      case None
      with Pair Inr y have r: "r = (tr0, Inr (x, None, evs))" by simp
      then have "and_then r k = (tr0 @ fst (k x evs), snd (k x evs))"
        by (simp add: and_then_def)
      with assms have tr: "tr = tr0 @ fst (k x evs)" and res: "res = snd (k x evs)" by simp_all
      from res have "k x evs = (fst (k x evs), res)" by simp
      from continue [OF r this tr] show ?thesis .
    next
      case (Some g)
      with Pair Inr y assms break show ?thesis by (auto simp: and_then_def)
    qed
  qed
qed

lemma receive_result:
  assumes "receive run b evs = (tr, r)"
  shows "tr = []"
    and "r = Inr (b', f, evs') \<Longrightarrow>
           routing b' = routing b \<and> kernel b' = kernel b \<and>
           outputValues (state b') = outputValues (state b) \<and>
           manifest (state b') = manifest (state b) \<and>
           Processed (state b') = Processed (state b)"
  using assms by (auto simp: receive_def split: sum.splits prod.splits)

lemma compute_result:
  assumes "compute b evs = (tr, r)"
  shows "r = Inl e \<Longrightarrow> tr = []"
    and "r = Inr (b', Some f, evs') \<Longrightarrow>
           tr = [Ran (Some f)] \<and> \<not> Processed (state b) \<and> \<not> Processed (state b')"
    and "r = Inr (b', None, evs') \<Longrightarrow>
           tr = (if Processed (state b) then [] else [Ran None]) \<and> Processed (state b')"
    and "r = Inr (b', f', evs') \<Longrightarrow>
           routing b' = routing b \<and> kernel b' = kernel b \<and>
           inputValues (state b') = inputValues (state b) \<and>
           manifest (state b') = manifest (state b)"
  using assms by (auto simp: compute_def split: sum.splits prod.splits option.splits if_splits)

subsection \<open>The inputs that need no message\<close>




subsection \<open>The kernel within a cycle\<close>

lemma kernel_once_connections:
  "kernel_once True (fst (broadcast_connections rid name v cs man evs) @ tr2) = kernel_once True tr2"
  by (induction cs arbitrary: man evs)
     (auto simp: emit_def split: list.splits event.splits)

lemma kernel_once_outputs:
  "kernel_once True (fst (broadcast_outputs ios ov man evs) @ tr2) = kernel_once True tr2"
proof (induction ios arbitrary: man evs)
  case Nil
  show ?case by simp
next
  case (Cons io ios)
  obtain rid out where io: "io = (rid, out)" by (cases io)
  show ?case
  proof (cases "Connections out = []")
    case True
    then show ?thesis by (simp add: io split: list.splits event.splits)
  next
    case False
    obtain tr1 r1 where bc: "broadcast_connections rid (Output_Name out) (at ov rid) (Connections out) man evs = (tr1, r1)"
      by (cases "broadcast_connections rid (Output_Name out) (at ov rid) (Connections out) man evs")
    have k1: "kernel_once True (tr1 @ X) = kernel_once True X" for X
      using kernel_once_connections [of rid "Output_Name out" "at ov rid" "Connections out" man evs X] bc by simp
    show ?thesis
      using False bc k1 Cons.IH
      by (simp add: io and_then_def split: sum.splits prod.splits option.splits)
  qed
qed

lemma broadcast_result:
  assumes "broadcast b evs = (tr, r)"
  shows "kernel_once True (tr @ tr2) = kernel_once True tr2"
    and "r = Inr (b', f, evs') \<Longrightarrow>
           routing b' = routing b \<and> kernel b' = kernel b \<and>
           inputValues (state b') = inputValues (state b) \<and>
           outputValues (state b') = outputValues (state b) \<and>
           Processed (state b') = Processed (state b)"
proof -
  obtain tr0 r0 where bo: "broadcast_outputs (enumerate 0 (Outputs (routing b))) (outputValues (state b)) (manifest (state b)) evs = (tr0, r0)"
    by (cases "broadcast_outputs (enumerate 0 (Outputs (routing b))) (outputValues (state b)) (manifest (state b)) evs")
  from assms bo have "tr = tr0" by (auto simp: broadcast_def split: sum.splits prod.splits)
  with kernel_once_outputs [of "enumerate 0 (Outputs (routing b))" "outputValues (state b)" "manifest (state b)" evs tr2] bo
  show "kernel_once True (tr @ tr2) = kernel_once True tr2" by simp
  show "r = Inr (b', f, evs') \<Longrightarrow>
           routing b' = routing b \<and> kernel b' = kernel b \<and>
           inputValues (state b') = inputValues (state b) \<and>
           outputValues (state b') = outputValues (state b) \<and>
           Processed (state b') = Processed (state b)"
    using assms bo by (auto simp: broadcast_def split: sum.splits prod.splits)
qed

lemma received_computed_kernel_once:
  assumes "and_then (receive run b evs) compute = (tr, r)"
  shows "\<exists>p'. (\<forall>tr2. kernel_once (Processed (state b)) (tr @ tr2) = kernel_once p' tr2) \<and>
              (\<forall>b' f evs'. r = Inr (b', f, evs') \<longrightarrow>
                 Processed (state b') = p' \<and> (f = None \<longrightarrow> p'))"
  using assms
proof (cases rule: and_then_cases)
  case (halt e)
  with receive_result(1) [OF halt(1)] show ?thesis by auto
next
  case (break x f evs)
  with receive_result [OF break(1)] show ?thesis by auto
next
  case (continue tr1 b1 evs1 tr2)
  from receive_result [OF continue(1)]
  have tr1: "tr1 = []" and p1: "Processed (state b1) = Processed (state b)" by simp_all
  show ?thesis
  proof (cases r)
    case (Inl e)
    with compute_result(1) [OF continue(2)] continue(3) tr1 show ?thesis by auto
  next
    case (Inr y)
    obtain b' f evs' where y: "y = (b', f, evs')" by (cases y)
    show ?thesis
    proof (cases f)
      case None
      with compute_result(3) [OF continue(2)] Inr y
      have "tr2 = (if Processed (state b1) then [] else [Ran None])" and "Processed (state b')"
        by simp_all
      with continue(3) tr1 p1 Inr y None show ?thesis
        by (intro exI [of _ True]) auto
    next
      case (Some g)
      with compute_result(2) [OF continue(2)] Inr y
      have "tr2 = [Ran (Some g)]" and "\<not> Processed (state b1)" and "\<not> Processed (state b')"
        by simp_all
      with continue(3) tr1 p1 Inr y Some show ?thesis
        by (intro exI [of _ False]) auto
    qed
  qed
qed

lemma broadcast_done_kernel_once:
  assumes "and_then (and_then (receive run b evs) compute) broadcast = (tr, r)"
  shows "\<exists>p'. (\<forall>tr2. kernel_once (Processed (state b)) (tr @ tr2) = kernel_once p' tr2) \<and>
              (\<forall>b' f evs'. r = Inr (b', f, evs') \<longrightarrow>
                 Processed (state b') = p' \<and> (f = None \<longrightarrow> p'))"
  using assms
proof (cases rule: and_then_cases)
  case (halt e)
  from received_computed_kernel_once [OF halt(1)] halt(2) show ?thesis by auto
next
  case (break x f evs)
  from received_computed_kernel_once [OF break(1)] break(2) show ?thesis by auto
next
  case (continue tr1 b1 evs1 tr2)
  from received_computed_kernel_once [OF continue(1)]
  have k1: "kernel_once (Processed (state b)) (tr1 @ X) = kernel_once True X"
    and p1: "Processed (state b1)" for X
    by auto
  from broadcast_result [OF continue(2)]
  have k2: "kernel_once True (tr2 @ X) = kernel_once True X"
    and p2: "r = Inr (b', f, evs') \<Longrightarrow> Processed (state b') = Processed (state b1)"
    for X b' f evs'
    by auto
  show ?thesis
    using continue(3) k1 k2 p1 p2 by (intro exI [of _ True]) auto
qed

lemma iteration_kernel_once:
  assumes "iteration run b evs = (tr, r)"
  shows "\<exists>p'. (\<forall>tr2. kernel_once (Processed (state b)) (tr @ tr2) = kernel_once p' tr2) \<and>
              (\<forall>b' f evs'. r = Inr (b', f, evs') \<longrightarrow> Processed (state b') = p')"
  using assms [unfolded iteration_def]
proof (cases rule: and_then_cases)
  case (halt e)
  from broadcast_done_kernel_once [OF halt(1)] halt(2) show ?thesis by auto
next
  case (break x f evs)
  from broadcast_done_kernel_once [OF break(1)] break(2) show ?thesis by auto
next
  case (continue tr1 b1 evs1 tr2)
  from broadcast_done_kernel_once [OF continue(1)]
  have k1: "kernel_once (Processed (state b)) (tr1 @ X) = kernel_once True X" for X
    by auto
  from continue(2) have "tr2 = [Cranked (Outputs (routing b1))]"
    and "r = Inr (crank b1, None, evs1)" by auto
  with continue(3) k1 show ?thesis
    by (intro exI [of _ False]) (auto simp: crank_def)
qed

lemma Serve_kernel_once: "kernel_once (Processed (state b)) (fst (Serve n run b evs))"
proof (induction n arbitrary: b evs)
  case 0
  show ?case by simp
next
  case (Suc n)
  obtain tr r where it: "iteration run b evs = (tr, r)" by (cases "iteration run b evs")
  from iteration_kernel_once [OF it] obtain p'
    where k: "\<And>tr2. kernel_once (Processed (state b)) (tr @ tr2) = kernel_once p' tr2"
      and p: "\<And>b' f evs'. r = Inr (b', f, evs') \<Longrightarrow> Processed (state b') = p'"
    by blast
  from k [of "[]"] have here: "kernel_once (Processed (state b)) tr" by simp
  show ?case
  proof (cases r)
    case (Inl e)
    with it here show ?thesis by simp
  next
    case (Inr y)
    obtain b' f evs' where y: "y = (b', f, evs')" by (cases y)
    from p Inr y have p': "Processed (state b') = p'" by simp
    show ?thesis
    proof (cases f)
      case None
      with it Inr y k p' Suc.IH [of b' evs'] show ?thesis by simp
    next
      case (Some g)
      show ?thesis
      proof (cases "interrupt g (routing b')")
        case (Inl e)
        with it Inr y Some here show ?thesis by simp
      next
        case (Inr z)
        obtain r' ok where z: "z = (r', ok)" by (cases z)
        from Suc.IH [of "b'\<lparr>routing := r'\<rparr>" evs'] p'
        have "kernel_once p' (fst (Serve n run (b'\<lparr>routing := r'\<rparr>) evs'))" by simp
        with it \<open>r = Inr y\<close> y Some Inr z here k show ?thesis by simp
      qed
    qed
  qed
qed


subsection \<open>From one cycle to the next\<close>

lemma iteration_cranked:
  assumes "iteration run b evs = (tr, Inr (b', None, evs'))"
  shows "\<exists>b1. b' = crank b1 \<and> routing b1 = routing b \<and> kernel b1 = kernel b"
  using assms [unfolded iteration_def]
proof (cases rule: and_then_cases)
  case (continue tr1 b3 evs3 tr2)
  then have b': "b' = crank b3" by auto
  from continue(1) have "routing b3 = routing b \<and> kernel b3 = kernel b"
  proof (cases rule: and_then_cases)
    case (continue tr1' b2 evs2 tr2')
    from continue(1) have "routing b2 = routing b \<and> kernel b2 = kernel b"
    proof (cases rule: and_then_cases)
      case (continue tr1'' b1 evs1 tr2'')
      with receive_result(2) [OF continue(1) refl] compute_result(4) [OF continue(2) refl]
      show ?thesis by simp
    qed auto
    with broadcast_result(2) [OF continue(2) refl] show ?thesis by simp
  qed auto
  with b' show ?thesis by blast
qed auto




subsection \<open>The manifest within a cycle\<close>

lemma recorded_mem:
  assumes "recorded names man S" and "distinct names" and "rid < length names"
  shows "((names ! rid, c) \<in> man) = ((rid, c) \<in> S)"
proof
  assume "(names ! rid, c) \<in> man"
  with assms(1) obtain rid' c' where m: "(rid', c') \<in> S" and e: "(names ! rid, c) = (names ! rid', c')"
    by (auto simp: recorded_def)
  from assms(1) m have "rid' < length names" by (auto simp: recorded_def)
  with e assms(2,3) have "rid = rid'" by (simp add: nth_eq_iff_index_eq)
  with m e show "(rid, c) \<in> S" by simp
next
  assume "(rid, c) \<in> S"
  with assms(1) show "(names ! rid, c) \<in> man" by (auto simp: recorded_def)
qed

lemma recorded_insert:
  "recorded names man S \<Longrightarrow> rid < length names \<Longrightarrow>
     recorded names (insert (names ! rid, c) man) (insert (rid, c) S)"
  by (auto simp: recorded_def)

lemma recorded_empty: "recorded names {} {}"
  by (simp add: recorded_def)

lemma broadcast_connections_once:
  assumes "distinct names" and "rid < length names"
    and "recorded names man S"
    and "broadcast_connections rid (names ! rid) v cs man evs = (tr, r)"
  shows "\<exists>S'. S \<subseteq> S' \<and> (\<forall>tr2. once_per_cycle S (tr @ tr2) = once_per_cycle S' tr2) \<and>
              (\<forall>man' f evs'. r = Inr (man', f, evs') \<longrightarrow>
                 recorded names man' S' \<and> (f = None \<longrightarrow> (\<forall>c \<in> set cs. (rid, c) \<in> S')))"
  using assms(3,4)
proof (induction cs arbitrary: man S evs tr r)
  case Nil
  then show ?case by (intro exI [of _ S]) auto
next
  case (Cons c cs)
  show ?case
  proof (cases "(names ! rid, c) \<in> man")
    case True
    with Cons.prems have run: "broadcast_connections rid (names ! rid) v cs man evs = (tr, r)"
      by simp
    from True recorded_mem [OF Cons.prems(1) assms(1,2)] have c: "(rid, c) \<in> S" by simp
    from Cons.IH [OF Cons.prems(1) run] obtain S' where "S \<subseteq> S'"
      and "\<forall>tr2. once_per_cycle S (tr @ tr2) = once_per_cycle S' tr2"
      and "\<forall>man' f evs'. r = Inr (man', f, evs') \<longrightarrow>
             recorded names man' S' \<and> (f = None \<longrightarrow> (\<forall>c \<in> set cs. (rid, c) \<in> S'))"
      by blast
    with c show ?thesis by (intro exI [of _ S']) auto
  next
    case False
    with recorded_mem [OF Cons.prems(1) assms(1,2)] have c: "(rid, c) \<notin> S" by simp
    show ?thesis
    proof (cases evs)
      case Nil
      with False Cons.prems(2) show ?thesis by (intro exI [of _ S]) auto
    next
      case (Cons ev evs1)
      show ?thesis
      proof (cases ev)
        case Delivered
        obtain tr1 r1 where run:
          "broadcast_connections rid (names ! rid) v cs (insert (names ! rid, c) man) evs1 = (tr1, r1)"
          by (cases "broadcast_connections rid (names ! rid) v cs (insert (names ! rid, c) man) evs1")
        with False Cons Delivered Cons.prems(2)
        have tr: "tr = Sent rid c v # tr1" and r: "r = r1" by (simp_all add: emit_def)
        from Cons.IH [OF recorded_insert [OF Cons.prems(1) assms(2)] run]
        obtain S' where sub: "insert (rid, c) S \<subseteq> S'"
          and chk: "\<forall>tr2. once_per_cycle (insert (rid, c) S) (tr1 @ tr2) = once_per_cycle S' tr2"
          and rec: "\<forall>man' f evs'. r1 = Inr (man', f, evs') \<longrightarrow>
             recorded names man' S' \<and> (f = None \<longrightarrow> (\<forall>c \<in> set cs. (rid, c) \<in> S'))"
          by blast
        from sub c tr r chk rec show ?thesis by (intro exI [of _ S']) auto
      next
        case (Interrupted f)
        with False Cons Cons.prems show ?thesis by (intro exI [of _ S]) auto
      next
        case (Arrive m)
        with False Cons Cons.prems(2) show ?thesis by (intro exI [of _ S]) auto
      next
        case Timer
        with False Cons Cons.prems(2) show ?thesis by (intro exI [of _ S]) auto
      qed
    qed
  qed
qed

lemma broadcast_outputs_once:
  assumes "distinct names" and "names = map Output_Name outs"
    and "\<forall>(rid, out) \<in> set ios. rid < length outs \<and> outs ! rid = out"
    and "recorded names man S"
    and "broadcast_outputs ios ov man evs = (tr, r)"
  shows "\<exists>S'. S \<subseteq> S' \<and> (\<forall>tr2. once_per_cycle S (tr @ tr2) = once_per_cycle S' tr2) \<and>
              (\<forall>man' f evs'. r = Inr (man', f, evs') \<longrightarrow>
                 recorded names man' S' \<and>
                 (f = None \<longrightarrow> (\<forall>(rid, out) \<in> set ios. \<forall>c \<in> set (Connections out). (rid, c) \<in> S')))"
  using assms(3,4,5)
proof (induction ios arbitrary: man S evs tr r)
  case Nil
  then show ?case by (intro exI [of _ S]) auto
next
  case (Cons io ios)
  obtain rid out where io: "io = (rid, out)" by (cases io)
  from Cons.prems(1) io have rid: "rid < length outs" and out: "outs ! rid = out"
    and rest: "\<forall>(rid, out) \<in> set ios. rid < length outs \<and> outs ! rid = out"
    by auto
  from rid out assms(2) have len: "rid < length names" and name: "Output_Name out = names ! rid"
    by simp_all
  show ?case
  proof (cases "Connections out = []")
    case True
    with Cons.prems(2,3) io show ?thesis
      by (intro exI [of _ S]) (auto split: list.splits event.splits)
  next
    case False
    with Cons.prems(3) io name
    have "and_then (broadcast_connections rid (names ! rid) (at ov rid) (Connections out) man evs)
            (\<lambda>man' evs'. broadcast_outputs ios ov man' evs') = (tr, r)"
      by simp
    then show ?thesis
    proof (cases rule: and_then_cases)
      case (halt e)
      from broadcast_connections_once [OF assms(1) len Cons.prems(2) halt(1)] halt(2)
      show ?thesis by auto
    next
      case (break x f evs1)
      from broadcast_connections_once [OF assms(1) len Cons.prems(2) break(1)] break(2)
      show ?thesis by auto
    next
      case (continue tr1 man1 evs1 tr2)
      from broadcast_connections_once [OF assms(1) len Cons.prems(2) continue(1)]
      obtain S1 where s1: "S \<subseteq> S1"
        and chk1: "\<forall>X. once_per_cycle S (tr1 @ X) = once_per_cycle S1 X"
        and rec1: "recorded names man1 S1"
        and all1: "\<forall>c \<in> set (Connections out). (rid, c) \<in> S1"
        by auto
      from Cons.IH [OF rest rec1 continue(2)]
      obtain S' where s2: "S1 \<subseteq> S'"
        and chk2: "\<forall>X. once_per_cycle S1 (tr2 @ X) = once_per_cycle S' X"
        and rec2: "\<forall>man' f evs'. r = Inr (man', f, evs') \<longrightarrow>
                 recorded names man' S' \<and>
                 (f = None \<longrightarrow> (\<forall>(rid, out) \<in> set ios. \<forall>c \<in> set (Connections out). (rid, c) \<in> S'))"
        by blast
      from s1 s2 have "S \<subseteq> S'" by simp
      moreover from chk1 chk2 continue(3)
      have "\<forall>X. once_per_cycle S (tr @ X) = once_per_cycle S' X" by simp
      moreover from all1 s2 have "\<forall>c \<in> set (Connections out). (rid, c) \<in> S'" by auto
      ultimately show ?thesis using rec2 io by (intro exI [of _ S']) auto
    qed
  qed
qed

lemma enumerate_nth: "\<forall>(i, x) \<in> set (enumerate 0 xs). i < length xs \<and> xs ! i = x"
  by (auto simp: in_set_enumerate_eq)

lemma broadcast_once:
  assumes "wired b S" and "broadcast b evs = (tr, r)"
  shows "\<exists>S'. (\<forall>tr2. once_per_cycle S (tr @ tr2) = once_per_cycle S' tr2) \<and>
              (\<forall>b' f evs'. r = Inr (b', f, evs') \<longrightarrow>
                 wired b' S' \<and> (f = None \<longrightarrow> all_served (Outputs (routing b')) S'))"
proof -
  let ?outs = "Outputs (routing b)"
  obtain r0 where bo: "broadcast_outputs (enumerate 0 ?outs) (outputValues (state b)) (manifest (state b)) evs = (tr, r0)"
    and r: "r = (case r0 of Inl e \<Rightarrow> Inl e | Inr (man, f, evs') \<Rightarrow> Inr (b\<lparr>state := (state b)\<lparr>manifest := man\<rparr>\<rparr>, f, evs'))"
    using assms(2) by (auto simp: broadcast_def split: prod.splits sum.splits)
  from assms(1) have d: "distinct (map Output_Name ?outs)"
    and rec: "recorded (map Output_Name ?outs) (manifest (state b)) S"
    by (simp_all add: wired_def)
  from broadcast_outputs_once [OF d refl enumerate_nth rec bo]
  obtain S' where chk: "\<forall>tr2. once_per_cycle S (tr @ tr2) = once_per_cycle S' tr2"
    and post: "\<forall>man' f evs'. r0 = Inr (man', f, evs') \<longrightarrow>
                 recorded (map Output_Name ?outs) man' S' \<and>
                 (f = None \<longrightarrow> (\<forall>(rid, out) \<in> set (enumerate 0 ?outs). \<forall>c \<in> set (Connections out). (rid, c) \<in> S'))"
    by blast
  from post r d have "\<forall>b' f evs'. r = Inr (b', f, evs') \<longrightarrow>
                 wired b' S' \<and> (f = None \<longrightarrow> all_served (Outputs (routing b')) S')"
    by (auto simp: wired_def all_served_def list_all_iff split: sum.splits)
  with chk show ?thesis by blast
qed

lemma compute_trace:
  "compute b evs = (tr, r) \<Longrightarrow> once_per_cycle S (tr @ tr2) = once_per_cycle S tr2"
  by (auto simp: compute_def split: sum.splits prod.splits option.splits if_splits)

lemma wired_same:
  "wired b S \<Longrightarrow> routing b' = routing b \<and> manifest (state b') = manifest (state b) \<Longrightarrow>
     wired b' S"
  by (simp add: wired_def)

lemma received_computed_once:
  assumes "wired b S" and "and_then (receive run b evs) compute = (tr, r)"
  shows "(\<forall>tr2. once_per_cycle S (tr @ tr2) = once_per_cycle S tr2) \<and>
         (\<forall>b' f evs'. r = Inr (b', f, evs') \<longrightarrow> wired b' S)"
  using assms(2)
proof (cases rule: and_then_cases)
  case (halt e)
  with receive_result(1) [OF halt(1)] show ?thesis by simp
next
  case (break x f evs1)
  from receive_result(2) [OF break(1) refl] have "wired x S"
    by (intro wired_same [OF assms(1)]) simp
  with receive_result(1) [OF break(1)] break(2) show ?thesis by simp
next
  case (continue tr1 b1 evs1 tr2)
  from receive_result(1) [OF continue(1)] have tr1: "tr1 = []" .
  from receive_result(2) [OF continue(1) refl] have w1: "wired b1 S"
    by (intro wired_same [OF assms(1)]) simp
  have "wired b' S" if "r = Inr (b', f, evs')" for b' f evs'
    using compute_result(4) [OF continue(2) that] by (intro wired_same [OF w1]) simp
  with compute_trace [OF continue(2)] continue(3) tr1 show ?thesis by simp
qed

lemma broadcast_done_once:
  assumes "wired b S" and "and_then (and_then (receive run b evs) compute) broadcast = (tr, r)"
  shows "\<exists>S'. (\<forall>tr2. once_per_cycle S (tr @ tr2) = once_per_cycle S' tr2) \<and>
              (\<forall>b' f evs'. r = Inr (b', f, evs') \<longrightarrow>
                 wired b' S' \<and> (f = None \<longrightarrow> all_served (Outputs (routing b')) S'))"
  using assms(2)
proof (cases rule: and_then_cases)
  case (halt e)
  from received_computed_once [OF assms(1) halt(1)] halt(2) show ?thesis
    by (intro exI [of _ S]) simp
next
  case (break x f evs1)
  from received_computed_once [OF assms(1) break(1)] break(2) show ?thesis
    by (intro exI [of _ S]) simp
next
  case (continue tr1 b1 evs1 tr2)
  from received_computed_once [OF assms(1) continue(1)]
  have chk1: "\<forall>X. once_per_cycle S (tr1 @ X) = once_per_cycle S X" and w1: "wired b1 S"
    by simp_all
  from broadcast_once [OF w1 continue(2)] obtain S'
    where chk2: "\<forall>X. once_per_cycle S (tr2 @ X) = once_per_cycle S' X"
      and post: "\<forall>b' f evs'. r = Inr (b', f, evs') \<longrightarrow>
                 wired b' S' \<and> (f = None \<longrightarrow> all_served (Outputs (routing b')) S')"
    by blast
  from chk1 chk2 continue(3) have "\<forall>X. once_per_cycle S (tr @ X) = once_per_cycle S' X" by simp
  with post show ?thesis by blast
qed

lemma wired_crank: "wired b S \<Longrightarrow> wired (crank b) {}"
  by (simp add: wired_def crank_def recorded_empty)

lemma iteration_once:
  assumes "wired b S" and "iteration run b evs = (tr, r)"
  shows "\<exists>S'. (\<forall>tr2. once_per_cycle S (tr @ tr2) = once_per_cycle S' tr2) \<and>
              (\<forall>b' f evs'. r = Inr (b', f, evs') \<longrightarrow> wired b' S')"
  using assms(2) [unfolded iteration_def]
proof (cases rule: and_then_cases)
  case (halt e)
  from broadcast_done_once [OF assms(1) halt(1)] halt(2) show ?thesis by auto
next
  case (break x f evs1)
  from broadcast_done_once [OF assms(1) break(1)] break(2) show ?thesis by auto
next
  case (continue tr1 b1 evs1 tr2)
  from broadcast_done_once [OF assms(1) continue(1)] obtain S1
    where chk1: "\<forall>X. once_per_cycle S (tr1 @ X) = once_per_cycle S1 X"
      and w1: "wired b1 S1" and served: "all_served (Outputs (routing b1)) S1"
    by auto
  from continue(2) have tr2: "tr2 = [Cranked (Outputs (routing b1))]"
    and r: "r = Inr (crank b1, None, evs1)" by auto
  from chk1 tr2 served continue(3)
  have "\<forall>X. once_per_cycle S (tr @ X) = once_per_cycle {} X" by simp
  with r wired_crank [OF w1] show ?thesis by (intro exI [of _ "{}"]) simp
qed

lemma names_update:
  "rid < length outs \<Longrightarrow> Output_Name out = Output_Name (outs ! rid) \<Longrightarrow>
     map Output_Name (outs[rid := out]) = map Output_Name outs"
  by (simp add: map_update list_update_same_conv)

lemma interrupt_names:
  assumes "interrupt f r = Inr (r', ok)"
  shows "map Output_Name (Outputs r') = map Output_Name (Outputs r)"
proof (cases f)
  case (RouteValue rid v)
  with assms show ?thesis by (cases "rid < length (Inputs r)") auto
next
  case (RoutePath rid p)
  with assms show ?thesis by (cases "rid < length (Inputs r)") auto
next
  case (Connect rid c)
  with assms show ?thesis by (cases "rid < length (Outputs r)") (auto simp: names_update)
next
  case (Disconnect rid c)
  with assms show ?thesis by (cases "rid < length (Outputs r)") (auto simp: names_update)
next
  case Stop
  with assms show ?thesis by auto
qed

lemma wired_interrupt:
  "wired b S \<Longrightarrow> interrupt f (routing b) = Inr (r', ok) \<Longrightarrow> wired (b\<lparr>routing := r'\<rparr>) S"
  using interrupt_names [of f "routing b" r' ok] by (simp add: wired_def)

lemma Serve_wired: "wired b S \<Longrightarrow> once_per_cycle S (fst (Serve n run b evs))"
proof (induction n arbitrary: b S evs)
  case 0
  show ?case by simp
next
  case (Suc n)
  obtain tr r where it: "iteration run b evs = (tr, r)" by (cases "iteration run b evs")
  from iteration_once [OF Suc.prems it] obtain S'
    where k: "\<And>tr2. once_per_cycle S (tr @ tr2) = once_per_cycle S' tr2"
      and w: "\<And>b' f evs'. r = Inr (b', f, evs') \<Longrightarrow> wired b' S'"
    by blast
  from k [of "[]"] have here: "once_per_cycle S tr" by simp
  show ?case
  proof (cases r)
    case (Inl e)
    with it here show ?thesis by simp
  next
    case (Inr y)
    obtain b' f evs' where y: "y = (b', f, evs')" by (cases y)
    from w Inr y have w': "wired b' S'" by simp
    show ?thesis
    proof (cases f)
      case None
      with it Inr y k Suc.IH [OF w', of evs'] show ?thesis by simp
    next
      case (Some g)
      show ?thesis
      proof (cases "interrupt g (routing b')")
        case (Inl e)
        with it Inr y Some here show ?thesis by simp
      next
        case (Inr z)
        obtain r' ok where z: "z = (r', ok)" by (cases z)
        from Inr z have "interrupt g (routing b') = Inr (r', ok)" by simp
        from Suc.IH [OF wired_interrupt [OF w' this], of evs']
        have "once_per_cycle S' (fst (Serve n run (b'\<lparr>routing := r'\<rparr>) evs'))" .
        with it \<open>r = Inr y\<close> y Some Inr z here k show ?thesis by simp
      qed
    qed
  qed
qed


section \<open>The engine: the claims\<close>





text \<open>
  Claim C3. In every completed cycle of every block, every connection of an output is
  sent exactly one message, and a broadcast resumed after an interrupt sends no second
  message to a connection already in the manifest. The manifest is keyed by the name of
  the output, and the two outputs of \<^verbatim>\<open>Latch\<close> are both named \<^verbatim>\<open>out\<close>: with connection 7
  on both outputs, the entry made for output 0 makes \<^verbatim>\<open>broadcast\<close> skip the connection
  on output 1, and the cycle completes without a message for it. With the control input
  false the message that came in is on output 1 and is sent to nobody.
\<close>

theorem Latch_shared_connection_skips_output_1:
  "fst (Serve (Suc (Suc (Suc 0))) whole_message (block_of Latch)
     [Interrupted (Connect 0 7), Interrupted (Connect 1 7), Arrive (Str ''a''), Arrive (Boolean False),
      Delivered, Delivered]) =
     [Ran None, Sent 0 7 Null,
      Cranked [\<lparr>Output_Name = ''out'', Connections = [7]\<rparr>, \<lparr>Output_Name = ''out'', Connections = [7]\<rparr>]] \<and>
   \<not> once_per_cycle {}
     (fst (Serve (Suc (Suc (Suc 0))) whole_message (block_of Latch)
        [Interrupted (Connect 0 7), Interrupted (Connect 1 7), Arrive (Str ''a''), Arrive (Boolean False),
         Delivered, Delivered])) \<and>
   fst (Serve (Suc (Suc (Suc 0))) whole_message (block_of Latch)
     [Interrupted (Connect 0 7), Interrupted (Connect 1 7), Arrive (Str ''a''), Arrive (Boolean True),
      Delivered, Delivered]) =
     [Ran None, Sent 0 7 (Str ''a''),
      Cranked [\<lparr>Output_Name = ''out'', Connections = [7]\<rparr>, \<lparr>Output_Name = ''out'', Connections = [7]\<rparr>]] \<and>
   \<not> once_per_cycle {}
     (fst (Serve (Suc (Suc (Suc 0))) whole_message (block_of Latch)
        [Interrupted (Connect 0 7), Interrupted (Connect 1 7), Arrive (Str ''a''), Arrive (Boolean True),
         Delivered, Delivered]))"
  by (simp add: engine_defs Latch_def Latch_kernel_def all_served_def)

text \<open>With two different connections the same block serves both of its outputs.\<close>

lemma Latch_two_connections:
  "fst (Serve (Suc (Suc (Suc 0))) whole_message (block_of Latch)
     [Interrupted (Connect 0 7), Interrupted (Connect 1 8), Arrive (Str ''a''), Arrive (Boolean False),
      Delivered, Delivered]) =
     [Ran None, Sent 0 7 Null, Sent 1 8 (Str ''a''),
      Cranked [\<lparr>Output_Name = ''out'', Connections = [7]\<rparr>, \<lparr>Output_Name = ''out'', Connections = [8]\<rparr>]] \<and>
   once_per_cycle {}
     (fst (Serve (Suc (Suc (Suc 0))) whole_message (block_of Latch)
        [Interrupted (Connect 0 7), Interrupted (Connect 1 8), Arrive (Str ''a''), Arrive (Boolean False),
         Delivered, Delivered]))"
  by (simp add: engine_defs Latch_def Latch_kernel_def all_served_def)

text \<open>
  Where the names of the outputs are pairwise distinct the property holds in every run
  of \<^verbatim>\<open>Serve\<close> that starts with an empty manifest: within a cycle no pair of an output
  and one of its connections is sent a second message, however often an interrupt
  suspends the broadcast and the cycle resumes, and at every crank each connection of
  each output, as wired then, has been sent one.
\<close>

lemma Serve_once_per_cycle:
  assumes "distinct (map Output_Name (Outputs (routing b)))" and "manifest (state b) = {}"
  shows "once_per_cycle {} (fst (Serve n run b evs))"
proof -
  from assms have "wired b {}" by (simp add: wired_def recorded_empty)
  then show ?thesis by (rule Serve_wired)
qed

text \<open>
  A head block with connection 7 on both outputs, to which an interrupt in the middle of
  the broadcast adds connection 8 on output 0.
\<close>

lemma Head_resumed_broadcast_once_per_cycle:
  "distinct (map Output_Name (Outputs (routing (block_of Head)))) \<and>
   manifest (state (block_of Head)) = {} \<and>
   once_per_cycle {}
     (fst (Serve (Suc (Suc (Suc (Suc 0)))) whole_message (block_of Head)
        [Interrupted (Connect 0 7), Interrupted (Connect 1 7), Arrive (Seq [Str ''a'', Str ''b'']),
         Delivered, Interrupted (Connect 0 8), Delivered, Delivered])) \<and>
   fst (Serve (Suc (Suc (Suc (Suc 0)))) whole_message (block_of Head)
        [Interrupted (Connect 0 7), Interrupted (Connect 1 7), Arrive (Seq [Str ''a'', Str ''b'']),
         Delivered, Interrupted (Connect 0 8), Delivered, Delivered]) =
     [Ran None, Sent 0 7 (Str ''a''), Sent 0 8 (Str ''a''), Sent 1 7 (Seq [Str ''b'']),
      Cranked [\<lparr>Output_Name = ''head'', Connections = [7, 8]\<rparr>, \<lparr>Output_Name = ''tail'', Connections = [7]\<rparr>]]"
proof -
  have d: "distinct (map Output_Name (Outputs (routing (block_of Head))))"
    and m: "manifest (state (block_of Head)) = {}"
    by (simp_all add: block_of_def NewBlock_def Head_def)
  have "fst (Serve (Suc (Suc (Suc (Suc 0)))) whole_message (block_of Head)
        [Interrupted (Connect 0 7), Interrupted (Connect 1 7), Arrive (Seq [Str ''a'', Str ''b'']),
         Delivered, Interrupted (Connect 0 8), Delivered, Delivered]) =
     [Ran None, Sent 0 7 (Str ''a''), Sent 0 8 (Str ''a''), Sent 1 7 (Seq [Str ''b'']),
      Cranked [\<lparr>Output_Name = ''head'', Connections = [7, 8]\<rparr>, \<lparr>Output_Name = ''tail'', Connections = [7]\<rparr>]]"
    by (simp add: engine_defs Head_def Head_kernel_def index_def slice_def)
  with d m Serve_once_per_cycle [OF d m, of "Suc (Suc (Suc (Suc 0)))" whole_message
      "[Interrupted (Connect 0 7), Interrupted (Connect 1 7), Arrive (Seq [Str ''a'', Str ''b'']),
         Delivered, Interrupted (Connect 0 8), Delivered, Delivered]"]
  show ?thesis by simp
qed

text \<open>
  Claim C4, as amended. In every run of \<^verbatim>\<open>Serve\<close> the kernel returns nil at most once
  in a cycle and exactly once before a crank: once it has, \<^verbatim>\<open>Processed\<close> is true and the
  kernel is not called again before the crank, whatever interrupts suspend the
  broadcast; messages are sent and the crank happens only after it has. A kernel that
  returns an interrupt leaves \<^verbatim>\<open>Processed\<close> false, and is called again when the cycle
  resumes.
\<close>

theorem kernel_returns_nil_once_per_cycle:
  "kernel_once (Processed (state b)) (fst (Serve n run b evs)) \<and>
   (\<forall>tr b' evs'. compute b evs = (tr, Inr (b', None, evs')) \<longrightarrow> Processed (state b')) \<and>
   (\<forall>tr b' f evs'. compute b evs = (tr, Inr (b', Some f, evs')) \<longrightarrow>
      tr = [Ran (Some f)] \<and> \<not> Processed (state b'))"
  using Serve_kernel_once [of b n run evs] compute_result(2,3) [of b evs] by blast


text \<open>
  The theorem at a delay block: a run in which the kernel is interrupted once, and the
  two ways its kernel returns.
\<close>

theorem kernel_returns_nil_once_per_cycle_witness:
  "kernel_once False
     (fst (Serve (Suc (Suc 0)) whole_message (block_of (Delay every_duration))
        [Arrive (Str ''a''), Arrive (Str ''1s''), Interrupted (Connect 0 7), Timer, Delivered])) \<and>
   (\<exists>b'. compute (holding (block_of (Delay every_duration)) [0 \<mapsto> Str ''a'', 1 \<mapsto> Str ''1s'']) [Timer] =
            ([Ran None], Inr (b', None, [])) \<and> Processed (state b')) \<and>
   (\<exists>b'. compute (holding (block_of (Delay every_duration)) [0 \<mapsto> Str ''a'', 1 \<mapsto> Str ''1s''])
            [Interrupted Stop] =
            ([Ran (Some Stop)], Inr (b', Some Stop, [])) \<and> \<not> Processed (state b'))"
proof -
  let ?b = "holding (block_of (Delay every_duration)) [0 \<mapsto> Str ''a'', 1 \<mapsto> Str ''1s'']"
  have p: "Processed (state (block_of (Delay every_duration))) = False"
    by (simp add: block_of_def NewBlock_def)
  have 1: "\<exists>b'. compute ?b [Timer] = ([Ran None], Inr (b', None, []))"
    by (simp add: holding_def engine_defs Delay_def Delay_kernel_def)
  have 2: "\<exists>b'. compute ?b [Interrupted Stop] = ([Ran (Some Stop)], Inr (b', Some Stop, []))"
    by (simp add: holding_def engine_defs Delay_def Delay_kernel_def)
  from kernel_returns_nil_once_per_cycle [of "block_of (Delay every_duration)" "Suc (Suc 0)" whole_message
      "[Arrive (Str ''a''), Arrive (Str ''1s''), Interrupted (Connect 0 7), Timer, Delivered]"] p
  have "kernel_once False
     (fst (Serve (Suc (Suc 0)) whole_message (block_of (Delay every_duration))
        [Arrive (Str ''a''), Arrive (Str ''1s''), Interrupted (Connect 0 7), Timer, Delivered]))"
    by simp
  moreover from 1 kernel_returns_nil_once_per_cycle [of ?b 0 whole_message "[Timer]"]
  have "\<exists>b'. compute ?b [Timer] = ([Ran None], Inr (b', None, [])) \<and> Processed (state b')"
    by blast
  moreover from 2 kernel_returns_nil_once_per_cycle [of ?b 0 whole_message "[Interrupted Stop]"]
  have "\<exists>b'. compute ?b [Interrupted Stop] = ([Ran (Some Stop)], Inr (b', Some Stop, [])) \<and>
              \<not> Processed (state b')"
    by blast
  ultimately show ?thesis by blast
qed


text \<open>
  The claim as stated, with the kernel not called again after an interrupt of its own,
  fails: a delay block interrupted during the delay runs its kernel a second time in
  the same cycle.
\<close>

theorem Delay_interrupted_runs_again:
  "Serve (Suc (Suc 0)) whole_message (block_of (Delay every_duration))
     [Arrive (Str ''a''), Arrive (Str ''1s''), Interrupted (Connect 0 7), Timer, Delivered] =
   ([Ran (Some (Connect 0 7)), Ran None, Sent 0 7 (Str ''a''),
     Cranked [\<lparr>Output_Name = ''passthrough'', Connections = [7]\<rparr>]], Running)"
  by (simp add: engine_defs Delay_def Delay_kernel_def)






text \<open>
  Claim C7. At the start of every cycle, the first after \<^verbatim>\<open>NewBlock\<close> and every one
  after a crank, the input map, the output map and the manifest are empty and
  \<^verbatim>\<open>Processed\<close> is false: that is the state \<^verbatim>\<open>NewBlock\<close> builds, the state \<^verbatim>\<open>crank\<close>
  leaves, and the state in which a turn of the loop of \<^verbatim>\<open>Serve\<close> hands over to the next.
\<close>

theorem cycle_starts_clean:
  "clean (state (NewBlock s)) \<and> clean (state (crank b)) \<and>
   (\<forall>tr b' evs'. iteration run b evs = (tr, Inr (b', None, evs')) \<longrightarrow> clean (state b'))"
proof -
  have "clean (state (NewBlock s))" by (simp add: clean_def NewBlock_def)
  moreover have c: "clean (state (crank b1))" for b1 by (simp add: clean_def crank_def)
  moreover have "clean (state b')" if "iteration run b evs = (tr, Inr (b', None, evs'))" for tr b' evs'
    using iteration_cranked [OF that] c by auto
  ultimately show ?thesis by blast
qed


text \<open>The theorem at an identity block that completes a cycle.\<close>

theorem cycle_starts_clean_witness:
  "iteration whole_message (connected (block_of Identity) [(0, 7)]) [Arrive (Str ''a''), Delivered] =
     ([Ran None, Sent 0 7 (Str ''a''), Cranked [\<lparr>Output_Name = ''out'', Connections = [7]\<rparr>]],
      Inr (connected (block_of Identity) [(0, 7)], None, [])) \<and>
   clean (state (connected (block_of Identity) [(0, 7)]))"
proof -
  have run: "iteration whole_message (connected (block_of Identity) [(0, 7)]) [Arrive (Str ''a''), Delivered] =
     ([Ran None, Sent 0 7 (Str ''a''), Cranked [\<lparr>Output_Name = ''out'', Connections = [7]\<rparr>]],
      Inr (connected (block_of Identity) [(0, 7)], None, []))"
    by (simp add: engine_defs connected_def Identity_def Identity_kernel_def)
  with cycle_starts_clean [where run = whole_message and b = "connected (block_of Identity) [(0, 7)]"
      and evs = "[Arrive (Str ''a''), Delivered]"]
  show ?thesis by blast
qed


end
